theory Spec2Isabelle
  imports Main "HOL-Library.Sublist"
begin

section \<open>PyWPMedia: thumbnail detection, base names and main-file matching\<close>

text \<open>
  A shallow embedding of the classification and matching functions of
  \<^verbatim>\<open>src/PyWPMedia.py\<close>: \<^verbatim>\<open>is_thumbnail\<close>, \<^verbatim>\<open>get_base_name\<close>,
  \<^verbatim>\<open>find_matching_main_files\<close>, the per-folder loop of
  \<^verbatim>\<open>delete_thumbnails_in_folder\<close> and the per-folder body of
  \<^verbatim>\<open>MediaCleanerGUI.preview_cleanup\<close>.

  Modelling decisions.
  \<^item> A Python \<^verbatim>\<open>str\<close> is a \<open>string\<close>. Case mapping and the digit class are the ASCII
    ones: \<^verbatim>\<open>str.lower\<close> maps \<open>A..Z\<close> to \<open>a..z\<close> and leaves every other character alone,
    \<^verbatim>\<open>\d\<close> is \<open>0..9\<close>. The model is exact for ASCII file names.
  \<^item> \<^verbatim>\<open>os.path.splitext\<close> is the POSIX one (separator \<open>/\<close>, extension separator \<open>.\<close>).
  \<^item> Operations that can raise return \<open>error + 'a\<close>: \<^verbatim>\<open>int(s)\<close> and the index \<^verbatim>\<open>[-1]\<close>.
  \<^item> Python integers are \<open>int\<close>.
\<close>

subsection \<open>Strings\<close>


definition newline :: char where
  "newline = CHR 0x0A"

definition lower_char :: "char \<Rightarrow> char" where
  "lower_char c =
     (case map_of (zip ''ABCDEFGHIJKLMNOPQRSTUVWXYZ'' ''abcdefghijklmnopqrstuvwxyz'') c of
        Some l \<Rightarrow> l
      | None \<Rightarrow> c)"

text \<open>\<^verbatim>\<open>s.lower()\<close>\<close>
definition lower :: "string \<Rightarrow> string" where
  "lower s = map lower_char s"

text \<open>The character class \<^verbatim>\<open>\d\<close>.\<close>
definition is_digit :: "char \<Rightarrow> bool" where
  "is_digit c = (c \<in> set ''0123456789'')"

text \<open>\<^verbatim>\<open>s.endswith(tuple)\<close> and \<^verbatim>\<open>s.startswith(t)\<close>; \<^verbatim>\<open>t in s\<close> is \<^const>\<open>sublist\<close>.\<close>
definition endswith_any :: "string \<Rightarrow> string list \<Rightarrow> bool" where
  "endswith_any s exts = list_ex (\<lambda>e. suffix e s) exts"


text \<open>\<^verbatim>\<open>s.replace(a, b)\<close> for single characters, and \<^verbatim>\<open>s.replace(a, '')\<close>.\<close>
definition replace_char :: "char \<Rightarrow> char \<Rightarrow> string \<Rightarrow> string" where
  "replace_char a b s = map (\<lambda>c. if c = a then b else c) s"


text \<open>\<^verbatim>\<open>s.rstrip('-')\<close>\<close>
definition rstrip_hyphen :: "string \<Rightarrow> string" where
  "rstrip_hyphen s = rev (dropWhile (\<lambda>c. c = CHR ''-'') (rev s))"

subsection \<open>Errors\<close>

datatype error = ValueError | IndexError

text \<open>
  \<^verbatim>\<open>int(s)\<close> on a string: the value of a non-empty string of decimal digits. Every other
  string is reported as \<open>ValueError\<close> (Python accepts a few more forms, signs and blanks;
  the program only converts groups matched by \<^verbatim>\<open>\d+\<close>). The interpreter's limit on
  the number of digits of such a string is left out here; \<open>py_int_checked\<close> below has it.
\<close>
definition digit_val :: "char \<Rightarrow> int" where
  "digit_val c = int (of_char c) - 48"

definition int_of_digits :: "string \<Rightarrow> int" where
  "int_of_digits s = foldl (\<lambda>a c. 10 * a + digit_val c) 0 s"

definition py_int :: "string \<Rightarrow> error + int" where
  "py_int s = (if s \<noteq> [] \<and> list_all is_digit s then Inr (int_of_digits s) else Inl ValueError)"

text \<open>\<^verbatim>\<open>xs[-1]\<close>\<close>
definition py_last :: "'a list \<Rightarrow> error + 'a" where
  "py_last xs = (case xs of [] \<Rightarrow> Inl IndexError | _ # _ \<Rightarrow> Inr (last xs))"

subsection \<open>\<^verbatim>\<open>os.path.splitext\<close>\<close>

text \<open>\<^verbatim>\<open>p.rfind(c)\<close>: the highest index of \<open>c\<close>, or \<open>-1\<close>.\<close>
fun rfind :: "char \<Rightarrow> string \<Rightarrow> int" where
  "rfind c [] = -1"
| "rfind c (x # xs) =
     (let r = rfind c xs in if 0 \<le> r then r + 1 else if x = c then 0 else -1)"

text \<open>
  The loop of \<^verbatim>\<open>genericpath._splitext\<close> that skips leading dots:
  \<^verbatim>\<open>
  while filenameIndex < dotIndex:
      if p[filenameIndex:filenameIndex+1] != extsep:
          return p[:dotIndex], p[dotIndex:]
      filenameIndex += 1
  return p, p[:0]
  \<close>
\<close>
function splitext_loop :: "string \<Rightarrow> nat \<Rightarrow> nat \<Rightarrow> string \<times> string" where
  "splitext_loop p filenameIndex dotIndex =
     (if filenameIndex < dotIndex then
        (if take 1 (drop filenameIndex p) \<noteq> ''.'' then (take dotIndex p, drop dotIndex p)
         else splitext_loop p (Suc filenameIndex) dotIndex)
      else (p, []))"
  by pat_completeness auto
termination
  by (relation "measure (\<lambda>(p, i, d). d - i)") auto

declare splitext_loop.simps [simp del]

definition splitext :: "string \<Rightarrow> string \<times> string" where
  "splitext p =
     (let sepIndex = rfind (CHR ''/'') p;
          dotIndex = rfind (CHR ''.'') p
      in if dotIndex > sepIndex then splitext_loop p (nat (sepIndex + 1)) (nat dotIndex)
         else (p, []))"

subsection \<open>The regular expressions\<close>

text \<open>
  \<^verbatim>\<open>-(\d+)x(\d+)\<close> matched at the start of \<open>s\<close>: the two groups and the rest of the string
  after the match. Both \<^verbatim>\<open>\d+\<close> are greedy and the character after the first group must be
  \<open>x\<close>, which is no digit, so backtracking into a shorter group never yields a match.
\<close>
definition match_dim :: "string \<Rightarrow> (string \<times> string \<times> string) option" where
  "match_dim s =
     (case s of
        [] \<Rightarrow> None
      | c # r \<Rightarrow>
          if c \<noteq> CHR ''-'' then None
          else let w = takeWhile is_digit r; r1 = dropWhile is_digit r in
            if w = [] then None
            else (case r1 of
                    [] \<Rightarrow> None
                  | x # r2 \<Rightarrow>
                      if x \<noteq> CHR ''x'' then None
                      else let h = takeWhile is_digit r2; r3 = dropWhile is_digit r2 in
                        if h = [] then None else Some (w, h, r3)))"

text \<open>
  \<^verbatim>\<open>re.findall(r'-(\d+)x(\d+)', name)\<close>: scan from the left; after a match the scan
  resumes behind it, otherwise one character further.
\<close>
function findall_dims :: "string \<Rightarrow> (string \<times> string) list" where
  "findall_dims s =
     (case match_dim s of
        Some (w, h, r) \<Rightarrow> (w, h) # findall_dims r
      | None \<Rightarrow> (case s of [] \<Rightarrow> [] | c # cs \<Rightarrow> findall_dims cs))"
  by pat_completeness auto
termination
proof (relation "measure length")
  show "wf (measure length)" by simp
next
  fix s :: string and m w y h r
  assume "match_dim s = Some m" and "(w, y) = m" and "(h, r) = y"
  then have m: "match_dim s = Some (w, h, r)" by simp
  then obtain t r2 where s: "s = CHR ''-'' # t"
    and r1: "dropWhile is_digit t = CHR ''x'' # r2" and r: "r = dropWhile is_digit r2"
    by (auto simp: match_dim_def Let_def split: list.splits if_splits)
  have "length r \<le> length r2" using r by (simp add: length_dropWhile_le)
  also have "length r2 < length (dropWhile is_digit t)" using r1 by simp
  also have "\<dots> \<le> length t" by (rule length_dropWhile_le)
  finally show "(r, s) \<in> measure length" using s by simp
next
  fix s :: string and c cs
  assume "s = c # cs"
  then show "(cs, s) \<in> measure length" by simp
qed

declare findall_dims.simps [simp del]

text \<open>\<^verbatim>\<open>re.sub(r'-\d+x\d+', '', name)\<close>\<close>
function sub_dims :: "string \<Rightarrow> string" where
  "sub_dims s =
     (case match_dim s of
        Some (w, h, r) \<Rightarrow> sub_dims r
      | None \<Rightarrow> (case s of [] \<Rightarrow> [] | c # cs \<Rightarrow> c # sub_dims cs))"
  by pat_completeness auto
termination
proof (relation "measure length")
  show "wf (measure length)" by simp
next
  fix s :: string and m w y h r
  assume "match_dim s = Some m" and "(w, y) = m" and "(h, r) = y"
  then have m: "match_dim s = Some (w, h, r)" by simp
  then obtain t r2 where s: "s = CHR ''-'' # t"
    and r1: "dropWhile is_digit t = CHR ''x'' # r2" and r: "r = dropWhile is_digit r2"
    by (auto simp: match_dim_def Let_def split: list.splits if_splits)
  have "length r \<le> length r2" using r by (simp add: length_dropWhile_le)
  also have "length r2 < length (dropWhile is_digit t)" using r1 by simp
  also have "\<dots> \<le> length t" by (rule length_dropWhile_le)
  finally show "(r, s) \<in> measure length" using s by simp
next
  fix s :: string and c cs
  assume "s = c # cs"
  then show "(cs, s) \<in> measure length" by simp
qed

declare sub_dims.simps [simp del]

text \<open>
  \<^verbatim>\<open>re.sub(r'-(scaled|rotated)$', '', base_name, flags=re.IGNORECASE)\<close>.
  Without \<^verbatim>\<open>re.MULTILINE\<close>, \<^verbatim>\<open>$\<close> matches at the end of the string and also just before a
  newline that is the last character. A match ends in \<open>d\<close> or \<open>D\<close>, so the string has at
  most one match: at its end, or before its final newline.
\<close>
definition marker_len :: "string \<Rightarrow> nat option" where
  "marker_len s =
     (if suffix ''-scaled'' (lower s) then Some 7
      else if suffix ''-rotated'' (lower s) then Some 8
      else None)"

definition sub_marker :: "string \<Rightarrow> string" where
  "sub_marker s =
     (case marker_len s of
        Some n \<Rightarrow> take (length s - n) s
      | None \<Rightarrow>
          if s \<noteq> [] \<and> last s = newline then
            (case marker_len (butlast s) of
               Some n \<Rightarrow> take (length s - 1 - n) s @ [newline]
             | None \<Rightarrow> s)
          else s)"

text \<open>\<^verbatim>\<open>re.sub(r'-+', '-', base_name)\<close>: every maximal run of hyphens becomes one hyphen.\<close>
function sub_hyphens :: "string \<Rightarrow> string" where
  "sub_hyphens [] = []"
| "sub_hyphens (c # cs) =
     (if c = CHR ''-'' then CHR ''-'' # sub_hyphens (dropWhile (\<lambda>c. c = CHR ''-'') cs)
      else c # sub_hyphens cs)"
  by pat_completeness auto
termination
  by (relation "measure length") (auto simp: less_Suc_eq_le length_dropWhile_le)

subsection \<open>\<^verbatim>\<open>is_thumbnail\<close> and \<^verbatim>\<open>get_base_name\<close>\<close>

definition is_thumbnail :: "string \<Rightarrow> error + bool" where
  "is_thumbnail filename =
     (let name = fst (splitext filename);
          name = (if endswith_any (lower name) [''.jpg'', ''.jpeg'', ''.png'']
                  then fst (splitext name) else name)
      in if sublist ''-scaled'' (lower name) \<or> sublist ''-rotated'' (lower name) then Inr True
         else let matches = findall_dims name in
           if matches = [] then Inr False
           else (case py_last matches of
                   Inl e \<Rightarrow> Inl e
                 | Inr (last_width, last_height) \<Rightarrow>
                     (case py_int last_width of
                        Inl e \<Rightarrow> Inl e
                      | Inr w \<Rightarrow>
                          (case py_int last_height of
                             Inl e \<Rightarrow> Inl e
                           | Inr h \<Rightarrow>
                               if w \<ge> 1000 \<and> h \<ge> 1000 then Inr False else Inr True))))"

definition get_base_name :: "string \<Rightarrow> string" where
  "get_base_name filename =
     (let name = fst (splitext filename);
          name = (if endswith_any (lower name) [''.jpg'', ''.jpeg'', ''.png'']
                  then fst (splitext name) else name);
          base_name = sub_dims name;
          base_name = sub_marker base_name;
          base_name = replace_char (CHR ''_'') (CHR ''-'') base_name;
          base_name = sub_hyphens base_name;
          base_name = rstrip_hyphen base_name
      in base_name)"

text \<open>
  CPython 3.11 and later (and the security releases of 3.7 to 3.10) refuse to convert a
  string of more than \<^verbatim>\<open>sys.get_int_max_str_digits()\<close> decimal digits, 4300 unless the
  interpreter is configured otherwise: \<^verbatim>\<open>int(s)\<close> raises \<open>ValueError\<close>. Leading zeros count.
\<close>
definition int_max_str_digits :: nat where
  "int_max_str_digits = 4300"

definition py_int_checked :: "string \<Rightarrow> error + int" where
  "py_int_checked s =
     (if s \<noteq> [] \<and> list_all is_digit s then
        (if length s > int_max_str_digits then Inl ValueError else Inr (int_of_digits s))
      else Inl ValueError)"

text \<open>
  \<^verbatim>\<open>is_thumbnail\<close> under that limit. The condition
  \<^verbatim>\<open>int(last_width) >= 1000 and int(last_height) >= 1000\<close> converts the height only when the
  width has been converted and is at least 1000. On strings without a run of more than
  4300 decimal digits \<open>is_thumbnail_checked\<close> and \<open>is_thumbnail\<close> agree
  (\<open>is_thumbnail_checked_bounded\<close>).
\<close>
definition is_thumbnail_checked :: "string \<Rightarrow> error + bool" where
  "is_thumbnail_checked filename =
     (let name = fst (splitext filename);
          name = (if endswith_any (lower name) [''.jpg'', ''.jpeg'', ''.png'']
                  then fst (splitext name) else name)
      in if sublist ''-scaled'' (lower name) \<or> sublist ''-rotated'' (lower name) then Inr True
         else let matches = findall_dims name in
           if matches = [] then Inr False
           else (case py_last matches of
                   Inl e \<Rightarrow> Inl e
                 | Inr (last_width, last_height) \<Rightarrow>
                     (case py_int_checked last_width of
                        Inl e \<Rightarrow> Inl e
                      | Inr w \<Rightarrow>
                          if w \<ge> 1000 then
                            (case py_int_checked last_height of
                               Inl e \<Rightarrow> Inl e
                             | Inr h \<Rightarrow> if h \<ge> 1000 then Inr False else Inr True)
                          else Inr True)))"

text \<open>
  The two functions share their first two statements (the extension handling); the rest
  of each body, as a function of the stripped name.
\<close>
definition strip_extensions :: "string \<Rightarrow> string" where
  "strip_extensions filename =
     (let name = fst (splitext filename)
      in if endswith_any (lower name) [''.jpg'', ''.jpeg'', ''.png'']
         then fst (splitext name) else name)"

definition classify_name :: "string \<Rightarrow> error + bool" where
  "classify_name name =
     (if sublist ''-scaled'' (lower name) \<or> sublist ''-rotated'' (lower name) then Inr True
      else let matches = findall_dims name in
        if matches = [] then Inr False
        else (case py_last matches of
                Inl e \<Rightarrow> Inl e
              | Inr (last_width, last_height) \<Rightarrow>
                  (case py_int last_width of
                     Inl e \<Rightarrow> Inl e
                   | Inr w \<Rightarrow>
                       (case py_int last_height of
                          Inl e \<Rightarrow> Inl e
                        | Inr h \<Rightarrow>
                            if w \<ge> 1000 \<and> h \<ge> 1000 then Inr False else Inr True))))"

definition normalize_name :: "string \<Rightarrow> string" where
  "normalize_name name =
     rstrip_hyphen (sub_hyphens (replace_char (CHR ''_'') (CHR ''-'') (sub_marker (sub_dims name))))"

subsection \<open>\<^verbatim>\<open>find_matching_main_files\<close>\<close>



subsection \<open>\<^verbatim>\<open>delete_thumbnails_in_folder\<close>\<close>

text \<open>
  The model starts where \<^verbatim>\<open>all_files\<close> is bound: the listing of the folder's regular files,
  read after \<^verbatim>\<open>normalize_filenames\<close> has run. The folder is the list of names present;
  \<^verbatim>\<open>os.remove\<close> succeeds on a name that is present and that the environment lets go
  (\<open>removable\<close>), and raises otherwise. The messages passed to \<^verbatim>\<open>log_callback\<close> are
  kept as values.
\<close>








subsection \<open>\<^verbatim>\<open>MediaCleanerGUI.preview_cleanup\<close>: the body of the loop over folders\<close>







subsection \<open>The specification's vocabulary\<close>

text \<open>
  The definitions of this subsection follow the wording of the specification, not the
  code; the theorems below compare the two.
\<close>





text \<open>Section 4.2, step 3: a trailing marker, anchored at the end of the name only.\<close>
definition strip_trailing_marker :: "string \<Rightarrow> string" where
  "strip_trailing_marker s =
     (case marker_len s of Some n \<Rightarrow> take (length s - n) s | None \<Rightarrow> s)"

text \<open>Section 4.2, steps 1 to 4.\<close>
definition BaseIdentity :: "string \<Rightarrow> string" where
  "BaseIdentity filename =
     rstrip_hyphen (sub_hyphens (replace_char (CHR ''_'') (CHR ''-'')
       (strip_trailing_marker (sub_dims (strip_extensions filename)))))"











text \<open>The shape of a canonical identity: no underscore, no doubled hyphen, no final hyphen.\<close>
definition hyphen_normal :: "string \<Rightarrow> bool" where
  "hyphen_normal s =
     (CHR ''_'' \<notin> set s \<and> \<not> sublist ''--'' s \<and> \<not> suffix ''-'' s)"



text \<open>The length of the longest run of consecutive decimal digits in a string.\<close>
fun longest_digit_run :: "string \<Rightarrow> nat" where
  "longest_digit_run [] = 0"
| "longest_digit_run (c # cs) =
     max (length (takeWhile is_digit (c # cs))) (longest_digit_run cs)"

section \<open>Properties\<close>

subsection \<open>The dimension pattern\<close>

lemma match_dim_Nil [simp]: "match_dim [] = None"
  by (simp add: match_dim_def)

lemma match_dim_SomeD:
  assumes "match_dim s = Some (w, h, r)"
  shows "s = CHR ''-'' # w @ CHR ''x'' # h @ r" and "w \<noteq> []" and "h \<noteq> []"
    and "list_all is_digit w" and "list_all is_digit h"
    and "r = [] \<or> \<not> is_digit (hd r)"
proof -
  from assms obtain t r2 where s: "s = CHR ''-'' # t"
    and w: "w = takeWhile is_digit t" and wne: "w \<noteq> []"
    and r1: "dropWhile is_digit t = CHR ''x'' # r2"
    and h: "h = takeWhile is_digit r2" and hne: "h \<noteq> []"
    and r: "r = dropWhile is_digit r2"
    by (auto simp: match_dim_def Let_def split: list.splits if_splits)
  have "t = w @ CHR ''x'' # r2" using w r1 takeWhile_dropWhile_id [of is_digit t] by simp
  moreover have "r2 = h @ r" using h r by simp
  ultimately show "s = CHR ''-'' # w @ CHR ''x'' # h @ r" using s by simp
  show "w \<noteq> []" by (rule wne)
  show "h \<noteq> []" by (rule hne)
  show "list_all is_digit w" unfolding w list_all_iff by (auto dest: set_takeWhileD)
  show "list_all is_digit h" unfolding h list_all_iff by (auto dest: set_takeWhileD)
  show "r = [] \<or> \<not> is_digit (hd r)" unfolding r by (metis hd_dropWhile)
qed

lemma match_dim_hyphen: "match_dim (c # cs) \<noteq> None \<Longrightarrow> c = CHR ''-''"
  by (auto simp: match_dim_def split: if_splits)

lemma findall_dims_Nil [simp]: "findall_dims [] = []"
  by (simp add: findall_dims.simps)

lemma findall_dims_Some: "match_dim s = Some (w, h, r) \<Longrightarrow> findall_dims s = (w, h) # findall_dims r"
  by (subst findall_dims.simps) simp

lemma findall_dims_None: "match_dim (c # cs) = None \<Longrightarrow> findall_dims (c # cs) = findall_dims cs"
  by (subst findall_dims.simps) simp

lemma sub_dims_Nil [simp]: "sub_dims [] = []"
  by (simp add: sub_dims.simps)

lemma sub_dims_Some: "match_dim s = Some (w, h, r) \<Longrightarrow> sub_dims s = sub_dims r"
  by (subst sub_dims.simps) simp

lemma sub_dims_None: "match_dim (c # cs) = None \<Longrightarrow> sub_dims (c # cs) = c # sub_dims cs"
  by (subst sub_dims.simps) simp

lemma findall_dims_groups:
  "(w, h) \<in> set (findall_dims s) \<Longrightarrow>
     w \<noteq> [] \<and> list_all is_digit w \<and> h \<noteq> [] \<and> list_all is_digit h"
proof (induction s rule: findall_dims.induct)
  case (1 s)
  show ?case
  proof (cases "match_dim s")
    case None
    show ?thesis
    proof (cases s)
      case Nil
      with "1.prems" show ?thesis by simp
    next
      case (Cons c cs)
      with None "1.prems" have "(w, h) \<in> set (findall_dims cs)"
        by (simp add: findall_dims_None)
      with "1.IH"(1) [OF None Cons] show ?thesis by simp
    qed
  next
    case (Some m)
    obtain w' h' r where m: "m = (w', h', r)" by (cases m) auto
    with Some have md: "match_dim s = Some (w', h', r)" by simp
    from "1.prems" have "(w, h) = (w', h') \<or> (w, h) \<in> set (findall_dims r)"
      by (simp add: findall_dims_Some [OF md])
    then show ?thesis
    proof
      assume "(w, h) = (w', h')"
      with match_dim_SomeD [OF md] show ?thesis by simp
    next
      assume "(w, h) \<in> set (findall_dims r)"
      with "1.IH"(2) [OF Some, of w' "(h', r)" h' r] m show ?thesis by simp
    qed
  qed
qed

lemma py_int_digits: "s \<noteq> [] \<Longrightarrow> list_all is_digit s \<Longrightarrow> \<exists>n. py_int s = Inr n"
  by (simp add: py_int_def)

lemma classify_name_total: "\<exists>b. classify_name name = Inr b"
proof (cases "findall_dims name = []")
  case True
  then show ?thesis by (auto simp: classify_name_def)
next
  case False
  then obtain w h where l: "last (findall_dims name) = (w, h)" by (cases "last (findall_dims name)") auto
  with False have "(w, h) \<in> set (findall_dims name)" by (metis last_in_set)
  from findall_dims_groups [OF this] obtain a b where "py_int w = Inr a" "py_int h = Inr b"
    by (auto simp: py_int_def)
  with False l show ?thesis
    by (auto simp: classify_name_def py_last_def Let_def split: list.splits)
qed

lemma is_thumbnail_classify: "is_thumbnail f = classify_name (strip_extensions f)"
  by (simp add: is_thumbnail_def classify_name_def strip_extensions_def Let_def)

lemma get_base_name_normalize: "get_base_name f = normalize_name (strip_extensions f)"
  by (simp add: get_base_name_def normalize_name_def strip_extensions_def Let_def)

lemma is_thumbnail_total: "\<exists>b. is_thumbnail f = Inr b"
  by (simp add: is_thumbnail_classify classify_name_total)






subsection \<open>Hyphens\<close>

lemma replace_char_absent: "a \<noteq> b \<Longrightarrow> a \<notin> set (replace_char a b s)"
  by (auto simp: replace_char_def)


lemma set_sub_hyphens: "set (sub_hyphens s) \<subseteq> set s"
proof (induction s rule: sub_hyphens.induct)
  case 1
  then show ?case by simp
next
  case (2 c cs)
  have "set (dropWhile (\<lambda>c. c = CHR ''-'') cs) \<subseteq> set cs" by (auto dest: set_dropWhileD)
  with 2 show ?case by auto
qed

lemma sub_hyphens_hd: "prefix ''-'' (sub_hyphens s) \<Longrightarrow> prefix ''-'' s"
  by (cases s) (auto split: if_splits)

lemma dropWhile_no_hyphen: "\<not> prefix ''-'' (dropWhile (\<lambda>c. c = CHR ''-'') cs)"
proof
  assume "prefix ''-'' (dropWhile (\<lambda>c. c = CHR ''-'') cs)"
  then obtain t where "dropWhile (\<lambda>c. c = CHR ''-'') cs = CHR ''-'' # t"
    by (auto simp: prefix_def)
  then show False using hd_dropWhile [of "\<lambda>c. c = CHR ''-''" cs] by auto
qed

lemma sub_hyphens_no_double: "\<not> sublist ''--'' (sub_hyphens s)"
proof (induction s rule: sub_hyphens.induct)
  case 1
  then show ?case by simp
next
  case (2 c cs)
  show ?case
  proof (cases "c = CHR ''-''")
    case True
    have "\<not> prefix ''-'' (sub_hyphens (dropWhile (\<lambda>c. c = CHR ''-'') cs))"
      using sub_hyphens_hd dropWhile_no_hyphen by blast
    with True 2 show ?thesis by (simp add: sublist_Cons_right)
  next
    case False
    with 2 show ?thesis by (simp add: sublist_Cons_right)
  qed
qed


lemma rstrip_hyphen_prefix: "prefix (rstrip_hyphen s) s"
proof -
  have "suffix (dropWhile (\<lambda>c. c = CHR ''-'') (rev s)) (rev s)" by (rule suffix_dropWhile)
  then show ?thesis unfolding rstrip_hyphen_def by (simp add: suffix_to_prefix)
qed

lemma rstrip_hyphen_no_suffix: "\<not> suffix ''-'' (rstrip_hyphen s)"
  using dropWhile_no_hyphen [of "rev s"]
  by (simp add: rstrip_hyphen_def suffix_to_prefix)


lemma hyphen_normal_pipeline:
  "hyphen_normal (rstrip_hyphen (sub_hyphens (replace_char (CHR ''_'') (CHR ''-'') s)))"
proof -
  let ?a = "replace_char (CHR ''_'') (CHR ''-'') s"
  let ?b = "sub_hyphens ?a"
  let ?c = "rstrip_hyphen ?b"
  have p: "prefix ?c ?b" by (rule rstrip_hyphen_prefix)
  have "CHR ''_'' \<notin> set ?a" by (rule replace_char_absent) simp
  then have "CHR ''_'' \<notin> set ?b" using set_sub_hyphens by blast
  then have 1: "CHR ''_'' \<notin> set ?c" using set_mono_prefix [OF p] by blast
  have 2: "\<not> sublist ''--'' ?c"
  proof
    assume "sublist ''--'' ?c"
    moreover have "sublist ?c ?b" using p by (rule prefix_imp_sublist)
    ultimately have "sublist ''--'' ?b" by (rule sublist_order.order.trans)
    then show False using sub_hyphens_no_double [of ?a] by simp
  qed
  show ?thesis unfolding hyphen_normal_def using 1 2 rstrip_hyphen_no_suffix by blast
qed


subsection \<open>The shape of the base name\<close>

text \<open>
  Claim C10. The base name of any string contains no underscore and no two consecutive
  hyphens, and does not end with a hyphen.
\<close>
theorem base_name_shape:
  "CHR ''_'' \<notin> set (get_base_name f) \<and>
   \<not> sublist ''--'' (get_base_name f) \<and>
   \<not> suffix ''-'' (get_base_name f)"
proof -
  have "hyphen_normal (get_base_name f)"
    unfolding get_base_name_normalize normalize_name_def by (rule hyphen_normal_pipeline)
  then show ?thesis by (simp add: hyphen_normal_def)
qed

subsection \<open>The matcher\<close>




subsection \<open>The folder loops\<close>










subsection \<open>Claims about the matcher and the folder reconciler\<close>









subsection \<open>Extensions\<close>

lemma rfind_absent: "c \<notin> set p \<Longrightarrow> rfind c p = -1"
  by (induction p) (auto simp: Let_def)

lemma rfind_last: "c \<notin> set b \<Longrightarrow> rfind c (a @ c # b) = int (length a)"
  by (induction a) (auto simp: Let_def rfind_absent)

lemma rfind_lower_bound: "c \<in> set b \<Longrightarrow> int (length a) \<le> rfind c (a @ b)"
proof -
  assume "c \<in> set b"
  then obtain b1 b2 where b: "b = b1 @ c # b2" and n: "c \<notin> set b2"
    by (meson split_list_last)
  have "rfind c ((a @ b1) @ c # b2) = int (length (a @ b1))" using n by (rule rfind_last)
  then show ?thesis using b by simp
qed

lemma rfind_ge: "-1 \<le> rfind c p"
  by (induction p) (auto simp: Let_def)

lemma splitext_loop_cases:
  "splitext_loop p i d = (p, []) \<or> splitext_loop p i d = (take d p, drop d p)"
proof (induction p i d rule: splitext_loop.induct)
  case (1 p i d)
  then show ?case by (subst (1 2) splitext_loop.simps) auto
qed

lemma splitext_loop_found:
  "i \<le> k \<Longrightarrow> k < d \<Longrightarrow> take 1 (drop k p) \<noteq> ''.'' \<Longrightarrow>
     splitext_loop p i d = (take d p, drop d p)"
proof (induction p i d rule: splitext_loop.induct)
  case (1 p i d)
  show ?case
  proof (cases "take 1 (drop i p) \<noteq> ''.''")
    case True
    with "1.prems" show ?thesis by (subst splitext_loop.simps) simp
  next
    case False
    with "1.prems" have "i \<noteq> k" by auto
    with "1.prems" have "Suc i \<le> k" by simp
    with "1.IH" "1.prems" False have "splitext_loop p (Suc i) d = (take d p, drop d p)"
      by simp
    with "1.prems" False show ?thesis by (subst splitext_loop.simps) simp
  qed
qed

lemma splitext_no_dot: "CHR ''.'' \<notin> set p \<Longrightarrow> splitext p = (p, [])"
  using rfind_ge [of "CHR ''/''" p] by (simp add: splitext_def rfind_absent Let_def)

lemma splitext_shape:
  "splitext p = (p, []) \<or>
   (\<exists>a e. p = a @ CHR ''.'' # e \<and> CHR ''.'' \<notin> set e \<and> CHR ''/'' \<notin> set e \<and>
          splitext p = (a, CHR ''.'' # e))"
proof (cases "CHR ''.'' \<in> set p")
  case False
  then show ?thesis by (simp add: splitext_no_dot)
next
  case True
  then obtain a e where p: "p = a @ CHR ''.'' # e" and e: "CHR ''.'' \<notin> set e"
    by (meson split_list_last)
  have d: "rfind (CHR ''.'') p = int (length a)" unfolding p using e by (rule rfind_last)
  show ?thesis
  proof (cases "rfind (CHR ''.'') p > rfind (CHR ''/'') p")
    case False
    then show ?thesis by (simp add: splitext_def Let_def)
  next
    case gt: True
    have nosep: "CHR ''/'' \<notin> set e"
    proof
      assume "CHR ''/'' \<in> set e"
      then have "CHR ''/'' \<in> set (CHR ''.'' # e)" by simp
      then have "int (length a) \<le> rfind (CHR ''/'') (a @ CHR ''.'' # e)"
        by (rule rfind_lower_bound)
      moreover have "rfind (CHR ''/'') (a @ CHR ''.'' # e) \<noteq> int (length a)"
      proof
        assume eq: "rfind (CHR ''/'') (a @ CHR ''.'' # e) = int (length a)"
        from \<open>CHR ''/'' \<in> set e\<close> have "int (length (a @ [CHR ''.''])) \<le>
            rfind (CHR ''/'') ((a @ [CHR ''.'']) @ e)"
          by (rule rfind_lower_bound)
        with eq show False by simp
      qed
      ultimately show False using gt d p by simp
    qed
    have sp: "splitext p = splitext_loop p (nat (rfind (CHR ''/'') p + 1)) (length a)"
      using gt d by (simp add: splitext_def Let_def)
    have td: "take (length a) p = a" "drop (length a) p = CHR ''.'' # e"
      unfolding p by simp_all
    from splitext_loop_cases [of p "nat (rfind (CHR ''/'') p + 1)" "length a"]
    show ?thesis unfolding sp td using p e nosep by auto
  qed
qed

lemma splitext_append: "fst (splitext p) @ snd (splitext p) = p"
  using splitext_shape [of p] by auto

lemma splitext_ext:
  assumes "CHR ''.'' \<notin> set e" and "CHR ''/'' \<notin> set a" and "CHR ''/'' \<notin> set e"
    and "\<exists>c \<in> set a. c \<noteq> CHR ''.''"
  shows "splitext (a @ CHR ''.'' # e) = (a, CHR ''.'' # e)"
proof -
  let ?p = "a @ CHR ''.'' # e"
  have s: "rfind (CHR ''/'') ?p = -1" using assms by (simp add: rfind_absent)
  have d: "rfind (CHR ''.'') ?p = int (length a)" using assms(1) by (rule rfind_last)
  from assms(4) obtain k where k: "k < length a" "a ! k \<noteq> CHR ''.''"
    by (auto simp: in_set_conv_nth)
  have "drop k ?p = a ! k # drop (Suc k) a @ CHR ''.'' # e"
    using k(1) by (simp add: Cons_nth_drop_Suc)
  then have nd: "take 1 (drop k ?p) \<noteq> ''.''" using k(2) by simp
  have "splitext ?p = splitext_loop ?p 0 (length a)"
    using s d by (simp add: splitext_def Let_def)
  also have "\<dots> = (take (length a) ?p, drop (length a) ?p)"
    using k(1) nd by (intro splitext_loop_found [of 0 k]) simp_all
  finally show ?thesis by simp
qed

lemma lower_char_dot [simp]: "lower_char c = CHR ''.'' \<longleftrightarrow> c = CHR ''.''"
  by (simp add: lower_char_def)

lemma lower_char_hyphen [simp]: "lower_char c = CHR ''-'' \<longleftrightarrow> c = CHR ''-''"
  by (simp add: lower_char_def)

lemma lower_char_slash [simp]: "lower_char c = CHR ''/'' \<longleftrightarrow> c = CHR ''/''"
  by (simp add: lower_char_def)

lemma lower_append [simp]: "lower (a @ b) = lower a @ lower b"
  by (simp add: lower_def)

lemma lower_Cons [simp]: "lower (c # s) = lower_char c # lower s"
  by (simp add: lower_def)

lemma lower_Nil [simp]: "lower [] = []"
  by (simp add: lower_def)

lemma dot_in_lower [simp]: "CHR ''.'' \<in> set (lower s) \<longleftrightarrow> CHR ''.'' \<in> set s"
  by (induction s) (auto simp: eq_commute [of "CHR ''.''"])

lemma hyphen_in_lower [simp]: "CHR ''-'' \<in> set (lower s) \<longleftrightarrow> CHR ''-'' \<in> set s"
  by (induction s) (auto simp: eq_commute [of "CHR ''-''"])

lemma slash_in_lower [simp]: "CHR ''/'' \<in> set (lower s) \<longleftrightarrow> CHR ''/'' \<in> set s"
  by (induction s) (auto simp: eq_commute [of "CHR ''/''"])

subsection \<open>A trailing extension does not change the classification\<close>

lemma takeWhile_stop: "\<not> P x \<Longrightarrow> takeWhile P (r @ x # e) = takeWhile P r"
  by (induction r) auto

lemma dropWhile_stop: "\<not> P x \<Longrightarrow> dropWhile P (r @ x # e) = dropWhile P r @ x # e"
  by (induction r) auto





lemma lower_char_of_dot [simp]: "lower_char (CHR ''.'') = CHR ''.''"
  by (simp add: lower_char_def)










subsection \<open>Claims about the detector and the extensions\<close>







subsection \<open>Claims about the base name\<close>



lemma sub_marker_end: "s = [] \<or> last s \<noteq> newline \<Longrightarrow> sub_marker s = strip_trailing_marker s"
  by (auto simp: sub_marker_def strip_trailing_marker_def split: option.splits)

lemma set_sub_dims: "set (sub_dims s) \<subseteq> set s"
proof (induction s rule: sub_dims.induct)
  case (1 s)
  show ?case
  proof (cases "match_dim s")
    case None
    show ?thesis
    proof (cases s)
      case Nil
      then show ?thesis by simp
    next
      case (Cons c cs)
      with None "1.IH"(1) [OF None Cons] show ?thesis
        by (auto simp: sub_dims_None)
    qed
  next
    case (Some m)
    obtain w h r where m: "m = (w, h, r)" by (cases m) auto
    with Some have md: "match_dim s = Some (w, h, r)" by simp
    have "s = CHR ''-'' # w @ CHR ''x'' # h @ r" by (rule match_dim_SomeD(1) [OF md])
    then have "set s = set (CHR ''-'' # w @ CHR ''x'' # h @ r)" by simp
    then have "set r \<subseteq> set s" by auto
    moreover have "set (sub_dims r) \<subseteq> set r"
      using "1.IH"(2) [OF Some, of w "(h, r)" h r] m by simp
    ultimately show ?thesis by (simp add: sub_dims_Some [OF md])
  qed
qed

lemma set_fst_splitext: "set (fst (splitext p)) \<subseteq> set p"
proof -
  have "set (fst (splitext p)) \<subseteq> set (fst (splitext p) @ snd (splitext p))" by simp
  then show ?thesis by (simp only: splitext_append)
qed

lemma set_strip_extensions: "set (strip_extensions f) \<subseteq> set f"
  using set_fst_splitext [of f] set_fst_splitext [of "fst (splitext f)"]
  by (auto simp: strip_extensions_def Let_def)

lemma get_base_name_without_newline:
  assumes "newline \<notin> set f"
  shows "get_base_name f = BaseIdentity f"
proof -
  let ?s = "sub_dims (strip_extensions f)"
  have "set ?s \<subseteq> set f" using set_sub_dims set_strip_extensions by blast
  with assms have "newline \<notin> set ?s" by blast
  then have "?s = [] \<or> last ?s \<noteq> newline" by (metis last_in_set)
  then have "sub_marker ?s = strip_trailing_marker ?s" by (rule sub_marker_end)
  then show ?thesis
    by (simp add: get_base_name_normalize normalize_name_def BaseIdentity_def)
qed

text \<open>
  Claim C2 at the file name \<open>photo-scaled\<close> followed by a newline and \<open>.jpg\<close>: removing a
  marker anchored at the end of the name only leaves the name as it is, since the name
  ends in the newline. \<^verbatim>\<open>get_base_name\<close> removes \<open>-scaled\<close> in front of the newline: in
  \<^verbatim>\<open>re.sub(r'-(scaled|rotated)$', ...)\<close> the anchor \<^verbatim>\<open>$\<close> also matches before a final newline.
  For file names without a newline the two agree (\<open>get_base_name_without_newline\<close>).
\<close>
theorem base_name_trailing_newline:
  "get_base_name (''photo-scaled'' @ [newline] @ ''.jpg'') = ''photo'' @ [newline] \<and>
   BaseIdentity (''photo-scaled'' @ [newline] @ ''.jpg'') = ''photo-scaled'' @ [newline]"
proof -
  have 1: "get_base_name (''photo-scaled'' @ [newline] @ ''.jpg'') = ''photo'' @ [newline]"
    by code_simp
  have 2: "BaseIdentity (''photo-scaled'' @ [newline] @ ''.jpg'') = ''photo-scaled'' @ [newline]"
    by code_simp
  from 1 2 show ?thesis by (rule conjI)
qed




subsection \<open>Totality of the detector\<close>

lemma findall_dims_group_sublist:
  "(w, h) \<in> set (findall_dims s) \<Longrightarrow> sublist w s \<and> sublist h s"
proof (induction s rule: findall_dims.induct)
  case (1 s)
  show ?case
  proof (cases "match_dim s")
    case None
    show ?thesis
    proof (cases s)
      case Nil
      with "1.prems" show ?thesis by simp
    next
      case (Cons c cs)
      with None "1.prems" have "(w, h) \<in> set (findall_dims cs)"
        by (simp add: findall_dims_None)
      with "1.IH"(1) [OF None Cons] Cons show ?thesis by (simp add: sublist_Cons_right)
    qed
  next
    case (Some m)
    obtain w' h' r where m: "m = (w', h', r)" by (cases m) auto
    with Some have md: "match_dim s = Some (w', h', r)" by simp
    have s: "s = [CHR ''-''] @ w' @ [CHR ''x''] @ h' @ r"
      using match_dim_SomeD(1) [OF md] by simp
    have sw: "sublist w' s" by (subst s) (rule sublist_appendI)
    have "s = ([CHR ''-''] @ w' @ [CHR ''x'']) @ h' @ r" by (subst s) simp
    then have sh: "sublist h' s" by (metis sublist_appendI)
    have "s = ([CHR ''-''] @ w' @ [CHR ''x''] @ h') @ r @ []" by (subst s) simp
    then have sr: "sublist r s" by (metis sublist_appendI)
    from "1.prems" have "(w, h) = (w', h') \<or> (w, h) \<in> set (findall_dims r)"
      by (simp add: findall_dims_Some [OF md])
    then show ?thesis
    proof
      assume "(w, h) = (w', h')"
      with sw sh show ?thesis by simp
    next
      assume "(w, h) \<in> set (findall_dims r)"
      with "1.IH"(2) [OF Some, of w' "(h', r)" h' r] m
      have "sublist w r \<and> sublist h r" by simp
      with sr show ?thesis by (blast intro: sublist_order.order_trans)
    qed
  qed
qed

lemma prefix_fst_splitext: "prefix (fst (splitext p)) p"
  by (metis prefixI splitext_append)

lemma sublist_strip_extensions: "sublist (strip_extensions f) f"
proof -
  have "prefix (strip_extensions f) f"
    using prefix_fst_splitext [of f] prefix_fst_splitext [of "fst (splitext f)"]
    by (auto simp: strip_extensions_def Let_def intro: prefix_order.order_trans)
  then show ?thesis by (rule prefix_imp_sublist)
qed

lemma py_int_checked_short:
  "s \<noteq> [] \<Longrightarrow> list_all is_digit s \<Longrightarrow> length s \<le> int_max_str_digits \<Longrightarrow>
     py_int_checked s = Inr (int_of_digits s)"
  by (simp add: py_int_checked_def)

lemma is_thumbnail_checked_bounded:
  assumes "\<forall>d. sublist d f \<and> list_all is_digit d \<longrightarrow> length d \<le> int_max_str_digits"
  shows "is_thumbnail_checked f = is_thumbnail f"
proof -
  let ?n = "strip_extensions f"
  have c: "is_thumbnail_checked f =
     (if sublist ''-scaled'' (lower ?n) \<or> sublist ''-rotated'' (lower ?n) then Inr True
      else let matches = findall_dims ?n in
        if matches = [] then Inr False
        else (case py_last matches of
                Inl e \<Rightarrow> Inl e
              | Inr (last_width, last_height) \<Rightarrow>
                  (case py_int_checked last_width of
                     Inl e \<Rightarrow> Inl e
                   | Inr w \<Rightarrow>
                       if w \<ge> 1000 then
                         (case py_int_checked last_height of
                            Inl e \<Rightarrow> Inl e
                          | Inr h \<Rightarrow> if h \<ge> 1000 then Inr False else Inr True)
                       else Inr True)))"
    by (simp add: is_thumbnail_checked_def strip_extensions_def Let_def)
  show ?thesis
  proof (cases "findall_dims ?n = []")
    case True
    then show ?thesis unfolding c is_thumbnail_classify classify_name_def by simp
  next
    case False
    obtain w h where l: "last (findall_dims ?n) = (w, h)"
      by (cases "last (findall_dims ?n)") auto
    with False have mem: "(w, h) \<in> set (findall_dims ?n)" by (metis last_in_set)
    from findall_dims_group_sublist [OF mem] sublist_strip_extensions [of f]
    have "sublist w f" "sublist h f" by (blast intro: sublist_order.order_trans)+
    with findall_dims_groups [OF mem] assms
    have "length w \<le> int_max_str_digits" "length h \<le> int_max_str_digits" by blast+
    with findall_dims_groups [OF mem]
    have cw: "py_int_checked w = Inr (int_of_digits w)"
      and ch: "py_int_checked h = Inr (int_of_digits h)"
      and pw: "py_int w = Inr (int_of_digits w)"
      and ph: "py_int h = Inr (int_of_digits h)"
      by (simp_all add: py_int_checked_short py_int_def)
    have pl: "py_last (findall_dims ?n) = Inr (w, h)"
      using False l by (cases "findall_dims ?n") (auto simp: py_last_def)
    show ?thesis unfolding c is_thumbnail_classify classify_name_def
      using False by (simp add: Let_def pl cw ch pw ph)
  qed
qed

lemma prefix_digits_takeWhile:
  "prefix d s \<Longrightarrow> list_all is_digit d \<Longrightarrow> length d \<le> length (takeWhile is_digit s)"
proof (induction d arbitrary: s)
  case Nil
  show ?case by simp
next
  case (Cons c d)
  from Cons.prems(1) obtain t where s: "s = c # t" and p: "prefix d t"
    by (cases s) auto
  from Cons.prems(2) have c: "is_digit c" and d: "list_all is_digit d" by simp_all
  from Cons.IH [OF p d] s c show ?case by simp
qed

lemma longest_digit_run_upper:
  "sublist d s \<Longrightarrow> list_all is_digit d \<Longrightarrow> length d \<le> longest_digit_run s"
proof (induction s)
  case Nil
  then show ?case by simp
next
  case (Cons c cs)
  from Cons.prems(1) have "prefix d (c # cs) \<or> sublist d cs"
    by (simp add: sublist_Cons_right)
  then show ?case
  proof
    assume "prefix d (c # cs)"
    from prefix_digits_takeWhile [OF this Cons.prems(2)] show ?thesis by simp
  next
    assume "sublist d cs"
    from Cons.IH [OF this Cons.prems(2)] show ?thesis by simp
  qed
qed

lemma longest_digit_run_attained:
  "\<exists>d. sublist d s \<and> list_all is_digit d \<and> length d = longest_digit_run s"
proof (induction s)
  case Nil
  show ?case by simp
next
  case (Cons c cs)
  let ?t = "takeWhile is_digit (c # cs)"
  have t: "sublist ?t (c # cs)" "list_all is_digit ?t"
    by (metis prefix_imp_sublist takeWhile_is_prefix)
       (simp only: list_all_iff, meson set_takeWhileD)
  from Cons.IH obtain d where d: "sublist d cs" "list_all is_digit d"
    "length d = longest_digit_run cs" by blast
  from d(1) have d': "sublist d (c # cs)" by (simp add: sublist_Cons_right)
  show ?case
  proof (cases "length ?t \<ge> longest_digit_run cs")
    case True
    then have "length ?t = longest_digit_run (c # cs)" by simp
    with t show ?thesis by blast
  next
    case False
    then have "length d = longest_digit_run (c # cs)" using d(3) by simp
    with d' d(2) show ?thesis by blast
  qed
qed

lemma is_thumbnail_checked_total:
  assumes "longest_digit_run f \<le> int_max_str_digits"
  shows "\<exists>b. is_thumbnail_checked f = Inr b"
proof -
  have "\<forall>d. sublist d f \<and> list_all is_digit d \<longrightarrow> length d \<le> int_max_str_digits"
    using assms longest_digit_run_upper [of _ f] by (meson order_trans)
  then have "is_thumbnail_checked f = is_thumbnail f" by (rule is_thumbnail_checked_bounded)
  with is_thumbnail_total [of f] show ?thesis by simp
qed

lemma one_is_digit: "is_digit (CHR ''1'')"
  by (simp add: is_digit_def)

lemma x_not_digit: "\<not> is_digit (CHR ''x'')"
  by (simp add: is_digit_def)

lemma lower_char_one: "lower_char (CHR ''1'') = CHR ''1''"
  by (simp add: lower_char_def)

lemma is_thumbnail_checked_width_raises:
  assumes "fst (splitext f) = name"
    and "\<not> endswith_any (lower name) [''.jpg'', ''.jpeg'', ''.png'']"
    and "\<not> sublist ''-scaled'' (lower name)"
    and "\<not> sublist ''-rotated'' (lower name)"
    and "findall_dims name = [(w, h)]"
    and "py_int_checked w = Inl e"
  shows "is_thumbnail_checked f = Inl e"
  using assms by (simp add: is_thumbnail_checked_def py_last_def)

lemma long_width_raises:
  assumes "n > 4300"
  shows "is_thumbnail_checked (''a-'' @ replicate n (CHR ''1'') @ ''x1.jpg'') = Inl ValueError"
proof -
  let ?d = "replicate n (CHR ''1'')"
  let ?name = "''a-'' @ ?d @ ''x1''"
  have nz: "?d \<noteq> []" using assms by auto
  have sp: "splitext (?name @ CHR ''.'' # ''jpg'') = (?name, CHR ''.'' # ''jpg'')"
    by (rule splitext_ext) auto
  then have 1: "fst (splitext (''a-'' @ ?d @ ''x1.jpg'')) = ?name" by simp
  have chars: "set ?name \<subseteq> {CHR ''a'', CHR ''-'', CHR ''1'', CHR ''x''}" by auto
  have low: "lower ?name = ?name"
    by (simp add: lower_def lower_char_one) (simp add: lower_char_def)
  have nodot: "CHR ''.'' \<notin> set ?name" by auto
  have 2: "\<not> endswith_any (lower ?name) [''.jpg'', ''.jpeg'', ''.png'']"
  proof
    assume "endswith_any (lower ?name) [''.jpg'', ''.jpeg'', ''.png'']"
    then obtain e where e: "e \<in> {''.jpg'', ''.jpeg'', ''.png''}" "suffix e ?name"
      unfolding low by (auto simp: endswith_any_def)
    from e(2) have "set e \<subseteq> set ?name" by (rule set_mono_suffix)
    moreover from e(1) have "CHR ''.'' \<in> set e" by auto
    ultimately show False using nodot by blast
  qed
  have 3: "\<not> sublist ''-scaled'' (lower ?name)"
  proof
    assume "sublist ''-scaled'' (lower ?name)"
    then have "set ''-scaled'' \<subseteq> set ?name" unfolding low by (rule set_mono_sublist)
    then have "CHR ''s'' \<in> set ?name" by auto
    with chars show False by auto
  qed
  have 4: "\<not> sublist ''-rotated'' (lower ?name)"
  proof
    assume "sublist ''-rotated'' (lower ?name)"
    then have "set ''-rotated'' \<subseteq> set ?name" unfolding low by (rule set_mono_sublist)
    then have "CHR ''r'' \<in> set ?name" by auto
    with chars show False by auto
  qed
  have tw: "takeWhile is_digit (?d @ CHR ''x'' # ''1'') = ?d"
    by (simp add: takeWhile_stop x_not_digit one_is_digit)
  have dw: "dropWhile is_digit (?d @ CHR ''x'' # ''1'') = CHR ''x'' # ''1''"
    by (simp add: dropWhile_stop x_not_digit one_is_digit)
  have md: "match_dim (CHR ''-'' # ?d @ ''x1'') = Some (?d, ''1'', [])"
    using nz by (simp add: match_dim_def Let_def tw dw one_is_digit)
  have "match_dim (CHR ''a'' # CHR ''-'' # ?d @ ''x1'') = None"
    by (simp add: match_dim_def)
  then have "findall_dims (CHR ''a'' # CHR ''-'' # ?d @ ''x1'') =
             findall_dims (CHR ''-'' # ?d @ ''x1'')"
    by (rule findall_dims_None)
  also have "\<dots> = [(?d, ''1'')]" by (simp add: findall_dims_Some [OF md])
  finally have 5: "findall_dims ?name = [(?d, ''1'')]" by simp
  have 6: "py_int_checked ?d = Inl ValueError"
    using assms by (simp add: py_int_checked_def int_max_str_digits_def)
  show ?thesis
    by (rule is_thumbnail_checked_width_raises [OF 1 2 3 4 5 6])
qed

text \<open>
  Claim C9, as stated, fails for \<^verbatim>\<open>is_thumbnail\<close>: the name made of \<open>a-\<close>, 4301 digits \<open>1\<close>
  and \<open>x1.jpg\<close> has one dimension pattern whose width has 4301 digits, and \<^verbatim>\<open>int(last_width)\<close>
  raises \<open>ValueError\<close>.
\<close>
theorem detector_digit_limit_counterexample:
  "is_thumbnail_checked (''a-'' @ replicate 4301 (CHR ''1'') @ ''x1.jpg'') = Inl ValueError"
  by (rule long_width_raises) simp

text \<open>
  Claim C9, amended. On every string in which no run of consecutive decimal digits is
  longer than 4300 characters, \<^verbatim>\<open>is_thumbnail\<close> returns a boolean and does not raise: the
  index \<^verbatim>\<open>matches[-1]\<close> is taken of a non-empty list only and both conversions
  \<^verbatim>\<open>int(...)\<close> succeed. That covers the empty string, a name without extension and a name
  with an incomplete dimension pattern, which are not derivatives, and names that are.
  \<^verbatim>\<open>get_base_name\<close> calls no operation that can raise and gives a string for every string;
  its values at the three malformed names are listed. Both are functions of the file name
  alone, so equal inputs give equal results.
\<close>
theorem detector_total_below_digit_limit:
  assumes "longest_digit_run f \<le> int_max_str_digits"
  shows "(\<exists>b. is_thumbnail_checked f = Inr b) \<and>
   is_thumbnail_checked [] = Inr False \<and> get_base_name [] = [] \<and>
   is_thumbnail_checked ''README'' = Inr False \<and> get_base_name ''README'' = ''README'' \<and>
   is_thumbnail_checked ''photo-12x.jpg'' = Inr False \<and>
   get_base_name ''photo-12x.jpg'' = ''photo-12x'' \<and>
   is_thumbnail_checked ''photo-150x150.jpg'' = Inr True \<and>
   is_thumbnail_checked ''photo-1920x1080.jpg'' = Inr False \<and>
   is_thumbnail_checked ''photo-scaled'' = Inr True"
proof -
  have 1: "\<exists>b. is_thumbnail_checked f = Inr b"
    using assms by (rule is_thumbnail_checked_total)
  have 2: "is_thumbnail_checked [] = Inr False" by code_simp
  have 3: "get_base_name [] = []" by code_simp
  have 4: "is_thumbnail_checked ''README'' = Inr False" by code_simp
  have 5: "get_base_name ''README'' = ''README''" by code_simp
  have 6: "is_thumbnail_checked ''photo-12x.jpg'' = Inr False" by code_simp
  have 7: "get_base_name ''photo-12x.jpg'' = ''photo-12x''" by code_simp
  have 8: "is_thumbnail_checked ''photo-150x150.jpg'' = Inr True" by code_simp
  have 9: "is_thumbnail_checked ''photo-1920x1080.jpg'' = Inr False" by code_simp
  have 10: "is_thumbnail_checked ''photo-scaled'' = Inr True" by code_simp
  from 1 2 3 4 5 6 7 8 9 10 show ?thesis by blast
qed

theorem detector_total_below_digit_limit_witness:
  "longest_digit_run ''photo-150x150.jpg'' = 3 \<and>
   longest_digit_run ''photo-150x150.jpg'' \<le> int_max_str_digits \<and>
   (\<exists>b. is_thumbnail_checked ''photo-150x150.jpg'' = Inr b)"
proof -
  have v: "longest_digit_run ''photo-150x150.jpg'' = 3" by code_simp
  have h: "longest_digit_run ''photo-150x150.jpg'' \<le> int_max_str_digits"
    unfolding v by (simp add: int_max_str_digits_def)
  from detector_total_below_digit_limit [OF h] have "\<exists>b. is_thumbnail_checked ''photo-150x150.jpg'' = Inr b"
    by (rule conjunct1)
  with v h show ?thesis by blast
qed

end
